theory Spec2Isabelle
  imports Complex_Main
begin

section \<open>Errors\<close>

text \<open>
  Every exception the modelled Python can raise is a value of \<open>error\<close>; a function that can
  raise returns \<open>error + 'a\<close> with \<open>Inl\<close> for the exception. \<open>Blocked\<close> stands for a
  blocking receive that never completes, \<open>MPIError\<close> for a failure of the transport.
\<close>

datatype error =
    AssertionError | NameError | IndexError | KeyError | AttributeError
  | ValueError | TypeError | ZeroDivisionError | MPIError | Blocked

section \<open>The worker (mpi\_worker\_commander.py)\<close>

subsection \<open>Objects that travel between commander and worker\<close>

text \<open>
  A worker variable is keyed by a string (\<open>WorkerVariable('i')\<close>) or by the value of the global
  counter (\<open>WorkerVariable()\<close>).
\<close>

datatype wkey = StrKey string | IntKey nat

text \<open>
  The Python objects a task handles. A numpy array is its \<open>shape\<close> and, for the arrays of at
  least two dimensions the worker stores, its cells: \<open>cell a i j\<close> is the sub-array \<open>a[i, j]\<close>
  (of shape \<open>shape[2:]\<close>, a single number for a two-dimensional array), read only for
  \<open>i < shape[0]\<close> and \<open>j < shape[1]\<close>. The element type \<open>'e\<close> has a \<open>1\<close>: the cell of
  \<open>np.ones\<close>. Conversions between numpy dtypes are not modelled.
\<close>

datatype 'e obj =
    NdArray (ashape: "nat list") (cell: "nat \<Rightarrow> nat \<Rightarrow> 'e")
  | WorkerVariable (key: wkey)
  | PyTuple "'e obj list"
  | PyNone
  | Other string

fun is_worker_variable :: "'e obj \<Rightarrow> bool" where
  "is_worker_variable (WorkerVariable k) = True"
| "is_worker_variable _ = False"

text \<open>
  The state of one worker: its four neighbours, the shape of its coordinate array \<open>self.i\<close>
  (two-dimensional, built by \<open>np.outer\<close> in \<open>mpi_worker_main\<close>), its variable store, and its end
  of the transport: the messages it has posted with \<open>Isend\<close> (destination and data, oldest
  first) and, for every source rank, the queue of messages waiting for its \<open>Recv\<close>.
\<close>

record 'e MPI_Worker =
  neighbor_ranks :: "nat \<times> nat \<times> nat \<times> nat"
  i_shape :: "nat \<times> nat"
  variables :: "wkey \<rightharpoonup> 'e obj"
  sent :: "(nat \<times> 'e list) list"
  inbox :: "nat \<Rightarrow> 'e list list"

subsection \<open>Argument substitution\<close>

text \<open>
  \<open>_substitute_args\<close>: every positional argument that is a worker variable is replaced by the
  stored object of its key (a missing key raises \<open>KeyError\<close>).
\<close>

fun substitute_args :: "'e MPI_Worker \<Rightarrow> 'e obj list \<Rightarrow> error + 'e obj list" where
  "substitute_args w [] = Inr []"
| "substitute_args w (arg # args) =
     (case (if is_worker_variable arg
            then (case variables w (key arg) of None \<Rightarrow> Inl KeyError | Some a \<Rightarrow> Inr a)
            else Inr arg) of
        Inl e \<Rightarrow> Inl e
      | Inr a \<Rightarrow> (case substitute_args w args of Inl e \<Rightarrow> Inl e | Inr as \<Rightarrow> Inr (a # as)))"

text \<open>
  \<open>_substitute_kwargs\<close>: the loop runs over the keys of \<open>kwargs\<close>; its body starts with
  \<open>is_worker_variable(arg)\<close>, and \<open>arg\<close> is a name of neither the method's scope (\<open>self\<close>,
  \<open>kwargs\<close>, \<open>kw\<close>) nor the module's: evaluating it raises \<open>NameError\<close> in the first
  iteration. With no key the loop body never runs and \<open>kwargs\<close> is returned.
\<close>

fun substitute_kwargs_loop ::
  "'e MPI_Worker \<Rightarrow> (string \<times> 'e obj) list \<Rightarrow> string list \<Rightarrow> error + (string \<times> 'e obj) list" where
  "substitute_kwargs_loop w kwargs [] = Inr kwargs"
| "substitute_kwargs_loop w kwargs (kw # kws) = Inl NameError"

definition substitute_kwargs ::
  "'e MPI_Worker \<Rightarrow> (string \<times> 'e obj) list \<Rightarrow> error + (string \<times> 'e obj) list" where
  "substitute_kwargs w kwargs = substitute_kwargs_loop w kwargs (map fst kwargs)"

subsection \<open>Storing a result, and the halo exchange\<close>

definition Isend :: "'e list \<Rightarrow> nat \<Rightarrow> 'e MPI_Worker \<Rightarrow> 'e MPI_Worker" where
  "Isend buf dest w = w\<lparr>sent := sent w @ [(dest, buf)]\<rparr>"

text \<open>
  \<open>Recv\<close> into a buffer of \<open>n\<close> cells from rank \<open>source\<close>: the oldest waiting message of that
  rank. With no message it never returns; a message longer than the buffer is a transport
  error; a shorter one fills the start of the buffer.
\<close>

definition Recv :: "nat \<Rightarrow> nat \<Rightarrow> 'e MPI_Worker \<Rightarrow> error + ('e list \<times> 'e MPI_Worker)" where
  "Recv n source w =
     (case inbox w source of
        [] \<Rightarrow> Inl Blocked
      | msg # rest \<Rightarrow>
          if n < length msg then Inl MPIError
          else Inr (msg, w\<lparr>inbox := (inbox w)(source := rest)\<rparr>))"

text \<open>The four strips a received message is written to, in an array with interior \<open>ni \<times> nj\<close>.\<close>

definition put_row :: "nat \<Rightarrow> 'e list \<Rightarrow> (nat \<Rightarrow> nat \<Rightarrow> 'e) \<Rightarrow> (nat \<Rightarrow> nat \<Rightarrow> 'e)" where
  "put_row r msg f = (\<lambda>i j. if i = r \<and> 1 \<le> j \<and> j < 1 + length msg then msg ! (j - 1) else f i j)"

definition put_col :: "nat \<Rightarrow> 'e list \<Rightarrow> (nat \<Rightarrow> nat \<Rightarrow> 'e) \<Rightarrow> (nat \<Rightarrow> nat \<Rightarrow> 'e)" where
  "put_col c msg f = (\<lambda>i j. if j = c \<and> 1 \<le> i \<and> i < 1 + length msg then msg ! (i - 1) else f i j)"

text \<open>
  \<open>_update_result_neighbor\<close>. \<open>result[0,:]\<close> raises \<open>IndexError\<close> on an array with no row,
  \<open>result[:,0]\<close> on one with no column, and either on an array of fewer than two dimensions; a
  non-array cannot be indexed. \<open>full_result\<close> is \<open>np.ones\<close> of the padded shape with \<open>result\<close>
  assigned to \<open>[1:-1,1:-1]\<close>; the four receives write into rows \<open>0\<close> and \<open>-1\<close> and columns
  \<open>0\<close> and \<open>-1\<close>, each over \<open>1:-1\<close>.
\<close>

definition update_result_neighbor ::
  "'e::one MPI_Worker \<Rightarrow> 'e obj \<Rightarrow> error + ('e obj \<times> 'e MPI_Worker)" where
  "update_result_neighbor w result =
     (case neighbor_ranks w of (x_m, x_p, y_m, y_p) \<Rightarrow>
      (case result of
         NdArray sh f \<Rightarrow>
           (case sh of
              ni # nj # rest \<Rightarrow>
                if ni = 0 then Inl IndexError
                else
                  let w1 = Isend (map (f 0) [0..<nj]) x_m w;
                      w2 = Isend (map (f (ni - 1)) [0..<nj]) x_p w1
                  in if nj = 0 then Inl IndexError
                  else
                    let w3 = Isend (map (\<lambda>i. f i 0) [0..<ni]) y_m w2;
                        w4 = Isend (map (\<lambda>i. f i (nj - 1)) [0..<ni]) y_p w3;
                        full0 = (\<lambda>i j. if 1 \<le> i \<and> i \<le> ni \<and> 1 \<le> j \<and> j \<le> nj
                                        then f (i - 1) (j - 1) else 1)
                    in (case Recv nj x_m w4 of Inl e \<Rightarrow> Inl e | Inr (m1, w5) \<Rightarrow>
                        (case Recv nj x_p w5 of Inl e \<Rightarrow> Inl e | Inr (m2, w6) \<Rightarrow>
                         (case Recv ni y_m w6 of Inl e \<Rightarrow> Inl e | Inr (m3, w7) \<Rightarrow>
                          (case Recv ni y_p w7 of Inl e \<Rightarrow> Inl e | Inr (m4, w8) \<Rightarrow>
                             Inr (NdArray ((ni + 2) # (nj + 2) # rest)
                                    (put_col (nj + 1) m4 (put_col 0 m3
                                      (put_row (ni + 1) m2 (put_row 0 m1 full0)))),
                                  w8)))))
            | _ \<Rightarrow> Inl IndexError)
       | _ \<Rightarrow> Inl TypeError))"

text \<open>
  \<open>_update_result\<close>. With a tuple of result variables the result must be a tuple of the same
  length and the pairs are stored one after the other (the call then returns \<open>None\<close>); with a
  single result variable the three assertions and the shape test guard the store (again
  \<open>None\<close> is returned); with no result variable the result itself is returned.
  \<open>ni\<close> and \<open>nj\<close> are Python integers, \<open>self.i.shape - 2\<close>.
\<close>

fun update_result ::
  "'e::one MPI_Worker \<Rightarrow> 'e obj \<Rightarrow> 'e obj \<Rightarrow> error + ('e obj \<times> 'e MPI_Worker)"
and update_result_zip ::
  "'e::one MPI_Worker \<Rightarrow> 'e obj list \<Rightarrow> 'e obj list \<Rightarrow> error + 'e MPI_Worker" where
  "update_result w result (PyTuple result_var) =
     (case result of
        PyTuple ress \<Rightarrow>
          if length ress = length result_var
          then (case update_result_zip w ress result_var of
                  Inl e \<Rightarrow> Inl e | Inr w' \<Rightarrow> Inr (PyNone, w'))
          else Inl AssertionError
      | _ \<Rightarrow> Inl AssertionError)"
| "update_result w result PyNone = Inr (result, w)"
| "update_result w result (WorkerVariable k) =
     (case result of
        NdArray sh f \<Rightarrow>
          if \<not> 2 \<le> length sh then Inl AssertionError
          else
            let ni = int (fst (i_shape w)) - 2; nj = int (snd (i_shape w)) - 2 in
            if map int (take 2 sh) \<noteq> [ni + 2, nj + 2]
            then
              if map int (take 2 sh) = [ni, nj]
              then (case update_result_neighbor w result of
                      Inl e \<Rightarrow> Inl e
                    | Inr (full_result, w') \<Rightarrow>
                        Inr (PyNone, w'\<lparr>variables := (variables w')(k \<mapsto> full_result)\<rparr>))
              else Inl AssertionError
            else Inr (PyNone, w\<lparr>variables := (variables w)(k \<mapsto> result)\<rparr>)
      | _ \<Rightarrow> Inl AssertionError)"
| "update_result w result (NdArray sh f) = Inl AssertionError"
| "update_result w result (Other s) = Inl AssertionError"
| "update_result_zip w [] vars = Inr w"
| "update_result_zip w (res # ress) [] = Inr w"
| "update_result_zip w (res # ress) (var # vars) =
     (case update_result w res var of
        Inl e \<Rightarrow> Inl e
      | Inr (r, w') \<Rightarrow> update_result_zip w' ress vars)"

subsection \<open>Properties of the worker\<close>

text \<open>A worker with a \<open>2 \<times> 3\<close> interior tile, and a tile computed without halo.\<close>

definition example_worker :: "int MPI_Worker" where
  "example_worker =
     \<lparr>neighbor_ranks = (0, 0, 1, 1), i_shape = (4, 5), variables = Map.empty, sent = [],
      inbox = (\<lambda>r. if r = 0 then [[7, 7, 7], [8, 8, 8]] else [[5, 5], [6, 6]])\<rparr>"


fun ndim_ge2 :: "'e obj \<Rightarrow> bool" where
  "ndim_ge2 (NdArray sh f) = (2 \<le> length sh)"
| "ndim_ge2 _ = False"






lemma neighbor_ndim:
  "update_result_neighbor w result = Inr (full, w') \<Longrightarrow> ndim_ge2 full"
  by (auto simp: update_result_neighbor_def Let_def split: prod.splits if_splits sum.splits obj.splits list.splits)

lemma neighbor_variables:
  "update_result_neighbor w result = Inr (full, w') \<Longrightarrow> variables w' = variables w \<and> i_shape w' = i_shape w"
  by (auto simp: update_result_neighbor_def Let_def Recv_def Isend_def split: prod.splits if_splits sum.splits obj.splits list.splits)

lemma update_result_var:
  assumes "update_result w result (WorkerVariable k) = Inr (r, w')"
  shows "\<exists>a. ndim_ge2 a \<and> variables w' = (variables w)(k \<mapsto> a) \<and> i_shape w' = i_shape w \<and> r = PyNone"
proof (cases result)
  case (NdArray sh f)
  show ?thesis
  proof (cases "map int (take 2 sh) = [int (fst (i_shape w)) - 2 + 2, int (snd (i_shape w)) - 2 + 2]")
    case True
    with assms NdArray show ?thesis
      by (auto simp: Let_def split: if_splits intro!: exI[of _ "NdArray sh f"])
  next
    case False
    with assms NdArray obtain full w1 where
      n: "update_result_neighbor w result = Inr (full, w1)" and
      w': "w' = w1\<lparr>variables := (variables w1)(k \<mapsto> full)\<rparr>" and r: "r = PyNone"
      by (cases "update_result_neighbor w result") (auto simp: Let_def split: if_splits)
    from neighbor_ndim[OF n] neighbor_variables[OF n] w' r show ?thesis by auto
  qed
qed (use assms in auto)

lemma stored_rank2:
  "update_result w result rv = Inr (r, w') \<Longrightarrow>
      (\<forall>k. variables w' k \<noteq> variables w k \<longrightarrow> (\<exists>a. variables w' k = Some a \<and> ndim_ge2 a)) \<and> i_shape w' = i_shape w"
  "update_result_zip w ress rvs = Inr w'' \<Longrightarrow>
      (\<forall>k. variables w'' k \<noteq> variables w k \<longrightarrow> (\<exists>a. variables w'' k = Some a \<and> ndim_ge2 a)) \<and> i_shape w'' = i_shape w"
proof (induction w result rv and w ress rvs arbitrary: r w' and w'' rule: update_result_update_result_zip.induct)
  case (1 w result result_var)
  from 1(2) obtain ress w1 where "result = PyTuple ress" "length ress = length result_var"
    "update_result_zip w ress result_var = Inr w1" "w' = w1"
    by (cases result; cases "length (case result of PyTuple x \<Rightarrow> x | _ \<Rightarrow> []) = length result_var")
       (auto split: sum.splits if_splits)
  with 1(1) show ?case by blast
next
  case (3 w result k)
  from update_result_var[OF 3] show ?case by auto
next
  case (8 w res ress var vars)
  from 8(3) obtain r1 w1 where r1: "update_result w res var = Inr (r1, w1)"
    and r2: "update_result_zip w1 ress vars = Inr w''"
    by (cases "update_result w res var") (auto split: prod.splits)
  from 8(1)[OF r1] have s1: "\<forall>k. variables w1 k \<noteq> variables w k \<longrightarrow> (\<exists>a. variables w1 k = Some a \<and> ndim_ge2 a)" "i_shape w1 = i_shape w" by auto
  from 8(2)[OF r1 refl r2] have s2: "\<forall>k. variables w'' k \<noteq> variables w1 k \<longrightarrow> (\<exists>a. variables w'' k = Some a \<and> ndim_ge2 a)" "i_shape w'' = i_shape w1" by auto
  show ?case
  proof (intro conjI allI impI)
    fix k assume "variables w'' k \<noteq> variables w k"
    then show "\<exists>a. variables w'' k = Some a \<and> ndim_ge2 a"
      using s1(1) s2(1) by (cases "variables w'' k = variables w1 k") auto
  qed (simp add: s1 s2)
qed auto






text \<open>
  Claim C9 (stored results are arrays of rank at least two). Under a single worker variable,
  a result that is not a numpy array of at least two dimensions fails an assertion; with no
  result variable the result is returned as it is and nothing is stored; and whatever the
  result variable (a tuple of variables included), every entry of the variable store that a
  successful call changed holds an array of at least two dimensions.
\<close>
theorem update_result_needs_rank2_array:
  "(\<not> ndim_ge2 result \<longrightarrow> update_result w result (WorkerVariable k) = Inl AssertionError)
   \<and> update_result w result PyNone = Inr (result, w)
   \<and> (\<forall>rv r w'. update_result w result rv = Inr (r, w') \<longrightarrow>
         (\<forall>k'. variables w' k' \<noteq> variables w k' \<longrightarrow>
                 (\<exists>a. variables w' k' = Some a \<and> ndim_ge2 a)))"
proof (intro conjI allI impI)
  assume "\<not> ndim_ge2 result"
  then show "update_result w result (WorkerVariable k) = Inl AssertionError"
    by (cases result) auto
next
  show "update_result w result PyNone = Inr (result, w)" by simp
next
  fix rv r w' k'
  assume "update_result w result rv = Inr (r, w')" "variables w' k' \<noteq> variables w k'"
  with stored_rank2(1) show "\<exists>a. variables w' k' = Some a \<and> ndim_ge2 a" by blast
qed

theorem update_result_needs_rank2_array_witness:
  "\<not> ndim_ge2 (Other ''3.5'' :: int obj)
   \<and> update_result example_worker (Other ''3.5'') (WorkerVariable (StrKey ''v'')) = Inl AssertionError
   \<and> update_result example_worker (NdArray [4] (\<lambda>i j. 0)) (WorkerVariable (StrKey ''v'')) = Inl AssertionError
   \<and> update_result example_worker (Other ''3.5'') PyNone = Inr (Other ''3.5'', example_worker)"
  using update_result_needs_rank2_array[of "Other ''3.5''" example_worker "StrKey ''v''"]
        update_result_needs_rank2_array[of "NdArray [4] (\<lambda>i j. 0)" example_worker "StrKey ''v''"]
  by simp





text \<open>
  Claim C6 (keyword-argument substitution) fails on the code: on every mapping with at
  least one key \<open>_substitute_kwargs\<close> raises \<open>NameError\<close>, where \<open>_substitute_args\<close>
  replaces the same worker variable by its stored array.
\<close>
lemma substitute_kwargs_nonempty:
  "kwargs \<noteq> [] \<Longrightarrow> substitute_kwargs w kwargs = Inl NameError"
  by (cases kwargs) (auto simp: substitute_kwargs_def)

theorem substitute_kwargs_raises:
  "substitute_kwargs (example_worker\<lparr>variables := [StrKey ''i'' \<mapsto> NdArray [4, 5] (\<lambda>i j. int i)]\<rparr>)
     [(''x'', WorkerVariable (StrKey ''i''))] = Inl NameError
   \<and> substitute_args (example_worker\<lparr>variables := [StrKey ''i'' \<mapsto> NdArray [4, 5] (\<lambda>i j. int i)]\<rparr>)
     [WorkerVariable (StrKey ''i'')] = Inr [NdArray [4, 5] (\<lambda>i j. int i)]"
  by (simp add: substitute_kwargs_def)


section \<open>The commander: tile ranges\<close>











section \<open>The symbolic DAG and its stages (enzyme/symbolic\_value.py)\<close>

subsection \<open>Values, operations and the object store\<close>

text \<open>
  Python compares Values by identity, so a Value is referred to by its address \<open>vid\<close> in the
  object store. An input of an operation is a Value (\<open>Val\<close>) or any other object, which has
  no attribute \<open>owner\<close> (\<open>Raw\<close>: a constant the operation receives as it is). The type
  \<open>'c\<close> is that of the concrete values operations compute with.
\<close>

type_synonym vid = nat

datatype 'c arg = Val vid | Raw 'c

text \<open>
  An owner exposes \<open>inputs\<close>, \<open>access_neighbor\<close> and \<open>perform\<close> (a total function here: an
  exception raised by an operation is not modelled).
\<close>

record 'c operation =
  inputs :: "'c arg list"
  access_neighbor :: bool
  perform :: "'c list \<Rightarrow> 'c"

text \<open>
  A \<open>stencil_array_value\<close> is constructed with \<open>shape\<close> and \<open>owner\<close>. The functions below
  set and delete four more attributes on it: \<open>_tmp\<close>, \<open>_value_id\<close>, \<open>create_stage\<close> and
  \<open>discard_stage\<close>; each is a field that is \<open>None\<close> while the object does not carry the
  attribute. The store is the list of all Values, a Value's address its index.
\<close>

record 'c stencil_array_value =
  shape :: "nat list"
  owner :: "'c operation option"
  tmp :: "'c option"
  value_id :: "nat option"
  create_stage :: "int option"
  discard_stage :: "int option"

type_synonym 'c heap = "'c stencil_array_value list"

text \<open>
  \<open>v.owner\<close>. Every reference of a Python program points to an object; an address outside
  the store is read as a Value with no owner.
\<close>

definition owner_of :: "'c heap \<Rightarrow> vid \<Rightarrow> 'c operation option" where
  "owner_of h v = (if v < length h then owner (h ! v) else None)"

subsection \<open>Discovery\<close>

text \<open>
  \<open>discover_values\<close>. The nested function \<open>discover_values_from\<close> calls itself on every
  input of a newly discovered Value, in order, before it returns; the pending calls are kept
  here as an explicit list, the inputs of the new Value in front of the calls that were
  already pending, so Values are discovered in the order of the Python recursion. The two
  result lists are \<open>discovered_values\<close> and \<open>discovered_triburary_values\<close>. Sinks and sources
  are lists of Values.
\<close>

function discover_values_from ::
  "'c heap \<Rightarrow> vid list \<Rightarrow> 'c arg list \<Rightarrow> vid list \<times> vid list \<Rightarrow> vid list \<times> vid list" where
  "discover_values_from h source_values [] (dv, dt) = (dv, dt)"
| "discover_values_from h source_values (Raw c # pending) (dv, dt) =
     discover_values_from h source_values pending (dv, dt)"
| "discover_values_from h source_values (Val v # pending) (dv, dt) =
     (if v \<in> set source_values then discover_values_from h source_values pending (dv, dt)
      else
        (case owner_of h v of
           None \<Rightarrow>
             discover_values_from h source_values pending
               (dv, if v \<in> set dt then dt else dt @ [v])
         | Some op \<Rightarrow>
             if v \<in> set dv then discover_values_from h source_values pending (dv, dt)
             else discover_values_from h source_values (inputs op @ pending) (dv @ [v], dt)))"
  by pat_completeness auto
termination
proof (relation "inv_image (less_than <*lex*> less_than)
        (\<lambda>(h, s, pending, dv, dt). (card ({..<length h} - set dv), length pending))",
       goal_cases)
  case (6 h source_values v pending dv dt x2)
  then have "v < length h" by (auto simp: owner_of_def split: if_splits)
  with 6 have "{..<length h} - set (dv @ [v]) \<subset> {..<length h} - set dv" by auto
  then have "card ({..<length h} - set (dv @ [v])) < card ({..<length h} - set dv)"
    by (intro psubset_card_mono) auto
  then show ?case by simp
qed auto

definition discover_values :: "'c heap \<Rightarrow> vid list \<Rightarrow> vid list \<Rightarrow> vid list \<times> vid list" where
  "discover_values h source_values sink_values =
     discover_values_from h source_values (map Val sink_values) ([], [])"

text \<open>
  The closure of a stage: the Values the walk from the sinks reaches, the formal sources
  being its boundary (the walk does not go through a source).
\<close>

inductive walk :: "'c heap \<Rightarrow> vid list \<Rightarrow> vid list \<Rightarrow> vid \<Rightarrow> bool"
  for h :: "'c heap" and source_values sink_values :: "vid list" where
  walk_sink: "r \<in> set sink_values \<Longrightarrow> walk h source_values sink_values r"
| walk_input: "walk h source_values sink_values v \<Longrightarrow> v \<notin> set source_values \<Longrightarrow>
     owner_of h v = Some op \<Longrightarrow> Val u \<in> set (inputs op) \<Longrightarrow>
     walk h source_values sink_values u"

lemma owner_of_Some_less: "owner_of h v = Some op \<Longrightarrow> v < length h"
  by (auto simp: owner_of_def split: if_splits)

text \<open>An invariant rule for the discovery loop: one premise for each branch of its body.\<close>

definition discover_preserves ::
  "'c heap \<Rightarrow> vid list \<Rightarrow> ('c arg list \<Rightarrow> vid list \<Rightarrow> vid list \<Rightarrow> bool) \<Rightarrow> bool" where
  "discover_preserves h S I =
     ((\<forall>c p dv dt. I (Raw c # p) dv dt \<longrightarrow> I p dv dt) \<and>
      (\<forall>v p dv dt. I (Val v # p) dv dt \<longrightarrow> v \<in> set S \<longrightarrow> I p dv dt) \<and>
      (\<forall>v p dv dt. I (Val v # p) dv dt \<longrightarrow> v \<notin> set S \<longrightarrow> owner_of h v = None \<longrightarrow>
          I p dv (if v \<in> set dt then dt else dt @ [v])) \<and>
      (\<forall>v p dv dt op. I (Val v # p) dv dt \<longrightarrow> v \<notin> set S \<longrightarrow> owner_of h v = Some op \<longrightarrow>
          v \<in> set dv \<longrightarrow> I p dv dt) \<and>
      (\<forall>v p dv dt op. I (Val v # p) dv dt \<longrightarrow> v \<notin> set S \<longrightarrow> owner_of h v = Some op \<longrightarrow>
          v \<notin> set dv \<longrightarrow> I (inputs op @ p) (dv @ [v]) dt))"

lemma discover_preservesD:
  assumes "discover_preserves h S I"
  shows "I (Raw c # p) dv dt \<Longrightarrow> I p dv dt"
    and "I (Val v # p) dv dt \<Longrightarrow> v \<in> set S \<Longrightarrow> I p dv dt"
    and "I (Val v # p) dv dt \<Longrightarrow> v \<notin> set S \<Longrightarrow> owner_of h v = None \<Longrightarrow>
          I p dv (if v \<in> set dt then dt else dt @ [v])"
    and "I (Val v # p) dv dt \<Longrightarrow> v \<notin> set S \<Longrightarrow> owner_of h v = Some op \<Longrightarrow>
          v \<in> set dv \<Longrightarrow> I p dv dt"
    and "I (Val v # p) dv dt \<Longrightarrow> v \<notin> set S \<Longrightarrow> owner_of h v = Some op \<Longrightarrow>
          v \<notin> set dv \<Longrightarrow> I (inputs op @ p) (dv @ [v]) dt"
proof -
  note u = assms[unfolded discover_preserves_def]
  note a = conjunct1[OF u]
  note b = conjunct1[OF conjunct2[OF u]]
  note c = conjunct1[OF conjunct2[OF conjunct2[OF u]]]
  note d = conjunct1[OF conjunct2[OF conjunct2[OF conjunct2[OF u]]]]
  note e = conjunct2[OF conjunct2[OF conjunct2[OF conjunct2[OF u]]]]
  show "I (Raw c # p) dv dt \<Longrightarrow> I p dv dt" by (rule a[rule_format])
  show "I (Val v # p) dv dt \<Longrightarrow> v \<in> set S \<Longrightarrow> I p dv dt" by (rule b[rule_format])
  show "I (Val v # p) dv dt \<Longrightarrow> v \<notin> set S \<Longrightarrow> owner_of h v = None \<Longrightarrow>
          I p dv (if v \<in> set dt then dt else dt @ [v])" by (rule c[rule_format])
  show "I (Val v # p) dv dt \<Longrightarrow> v \<notin> set S \<Longrightarrow> owner_of h v = Some op \<Longrightarrow>
          v \<in> set dv \<Longrightarrow> I p dv dt" by (rule d[rule_format])
  show "I (Val v # p) dv dt \<Longrightarrow> v \<notin> set S \<Longrightarrow> owner_of h v = Some op \<Longrightarrow>
          v \<notin> set dv \<Longrightarrow> I (inputs op @ p) (dv @ [v]) dt" by (rule e[rule_format])
qed

lemma discover_from_invariant:
  "discover_values_from h S p (dv, dt) = (dv', dt') \<Longrightarrow> I p dv dt \<Longrightarrow>
     discover_preserves h S I \<Longrightarrow> I [] dv' dt'"
proof (induction h S p "(dv, dt)" arbitrary: dv dt rule: discover_values_from.induct)
  case (1 h S dv dt)
  then show ?case by simp
next
  case (2 h S c pending dv dt)
  from 2(2) have e: "discover_values_from h S pending (dv, dt) = (dv', dt')" by simp
  from 2(1)[OF e discover_preservesD(1)[OF 2(4) 2(3)] 2(4)] show ?case .
next
  case (3 h S v pending dv dt)
  note P = 3(7)
  show ?case
  proof (cases "v \<in> set S")
    case True
    from 3(5) True have e: "discover_values_from h S pending (dv, dt) = (dv', dt')" by simp
    from 3(1)[OF True e discover_preservesD(2)[OF P 3(6) True] P] show ?thesis .
  next
    case False
    show ?thesis
    proof (cases "owner_of h v")
      case None
      from 3(5) False None
      have e: "discover_values_from h S pending (dv, if v \<in> set dt then dt else dt @ [v]) = (dv', dt')"
        by simp
      from 3(2)[OF False None e discover_preservesD(3)[OF P 3(6) False None] P] show ?thesis .
    next
      case (Some op)
      show ?thesis
      proof (cases "v \<in> set dv")
        case True
        from 3(5) False Some True have e: "discover_values_from h S pending (dv, dt) = (dv', dt')"
          by simp
        from 3(3)[OF False Some True e discover_preservesD(4)[OF P 3(6) False Some True] P]
        show ?thesis .
      next
        case nd: False
        from 3(5) False Some nd
        have e: "discover_values_from h S (inputs op @ pending) (dv @ [v], dt) = (dv', dt')" by simp
        from 3(4)[OF False Some nd e discover_preservesD(5)[OF P 3(6) False Some nd] P]
        show ?thesis .
      qed
    qed
  qed
qed

lemma discover_from_mono:
  assumes "discover_values_from h S p (dv, dt) = (dv', dt')"
  shows "set dv \<subseteq> set dv' \<and> set dt \<subseteq> set dt'"
  by (rule discover_from_invariant[OF assms, where I = "\<lambda>p dv1 dt1. set dv \<subseteq> set dv1 \<and> set dt \<subseteq> set dt1"])
     (auto simp: discover_preserves_def)

lemma discover_from_distinct:
  assumes "discover_values_from h S p (dv, dt) = (dv', dt')" "distinct dv" "distinct dt"
  shows "distinct dv' \<and> distinct dt'"
  by (rule discover_from_invariant[OF assms(1), where I = "\<lambda>p dv1 dt1. distinct dv1 \<and> distinct dt1"])
     (use assms in \<open>auto simp: discover_preserves_def\<close>)

lemma discover_from_kinds:
  assumes "discover_values_from h S p (dv, dt) = (dv', dt')"
    and "\<forall>v\<in>set dv. v \<notin> set S \<and> owner_of h v \<noteq> None"
    and "\<forall>v\<in>set dt. v \<notin> set S \<and> owner_of h v = None"
  shows "(\<forall>v\<in>set dv'. v \<notin> set S \<and> owner_of h v \<noteq> None) \<and>
     (\<forall>v\<in>set dt'. v \<notin> set S \<and> owner_of h v = None)"
  by (rule discover_from_invariant[OF assms(1), where I = "\<lambda>p dv1 dt1.
        (\<forall>v\<in>set dv1. v \<notin> set S \<and> owner_of h v \<noteq> None) \<and>
        (\<forall>v\<in>set dt1. v \<notin> set S \<and> owner_of h v = None)"])
     (use assms in \<open>auto simp: discover_preserves_def\<close>)

definition closed_upto :: "'c heap \<Rightarrow> vid list \<Rightarrow> 'c arg list \<Rightarrow> vid list \<Rightarrow> vid list \<Rightarrow> bool" where
  "closed_upto h S p dv dt =
     (\<forall>v\<in>set dv. \<forall>op u. owner_of h v = Some op \<longrightarrow> Val u \<in> set (inputs op) \<longrightarrow>
        u \<in> set S \<or> u \<in> set dt \<or> u \<in> set dv \<or> Val u \<in> set p)"

lemma closed_upto_steps:
  "closed_upto h S (Raw c # p) dv dt \<Longrightarrow> closed_upto h S p dv dt"
  "closed_upto h S (Val v # p) dv dt \<Longrightarrow> v \<in> set S \<Longrightarrow> closed_upto h S p dv dt"
  "closed_upto h S (Val v # p) dv dt \<Longrightarrow>
     closed_upto h S p dv (if v \<in> set dt then dt else dt @ [v])"
  "closed_upto h S (Val v # p) dv dt \<Longrightarrow> v \<in> set dv \<Longrightarrow> closed_upto h S p dv dt"
  "closed_upto h S (Val v # p) dv dt \<Longrightarrow> owner_of h v = Some op \<Longrightarrow>
     closed_upto h S (inputs op @ p) (dv @ [v]) dt"
  by (simp_all add: closed_upto_def; blast)+

definition roots_found :: "vid list \<Rightarrow> 'c arg list \<Rightarrow> 'c arg list \<Rightarrow> vid list \<Rightarrow> vid list \<Rightarrow> bool" where
  "roots_found S p0 p dv dt =
     (\<forall>u. Val u \<in> set p0 \<longrightarrow> u \<in> set S \<or> u \<in> set dt \<or> u \<in> set dv \<or> Val u \<in> set p)"

lemma roots_found_steps:
  "roots_found S p0 (Raw c # p) dv dt \<Longrightarrow> roots_found S p0 p dv dt"
  "roots_found S p0 (Val v # p) dv dt \<Longrightarrow> v \<in> set S \<Longrightarrow> roots_found S p0 p dv dt"
  "roots_found S p0 (Val v # p) dv dt \<Longrightarrow>
     roots_found S p0 p dv (if v \<in> set dt then dt else dt @ [v])"
  "roots_found S p0 (Val v # p) dv dt \<Longrightarrow> v \<in> set dv \<Longrightarrow> roots_found S p0 p dv dt"
  "roots_found S p0 (Val v # p) dv dt \<Longrightarrow> roots_found S p0 (q @ p) (dv @ [v]) dt"
  by (simp_all add: roots_found_def; blast)+

lemma discover_from_closed:
  assumes "discover_values_from h S p (dv, dt) = (dv', dt')" and "closed_upto h S p dv dt"
  shows "closed_upto h S [] dv' dt'"
proof -
  have "discover_preserves h S (closed_upto h S)"
    unfolding discover_preserves_def
    apply (intro conjI allI impI)
        apply (erule closed_upto_steps(1))
       apply (erule closed_upto_steps(2), assumption)
      apply (erule closed_upto_steps(3))
     apply (erule closed_upto_steps(4), assumption)
    apply (erule closed_upto_steps(5), assumption)
    done
  from discover_from_invariant[OF assms(1), where I = "closed_upto h S", OF assms(2) this]
  show ?thesis .
qed

lemma discover_from_roots:
  assumes "discover_values_from h S p (dv, dt) = (dv', dt')"
  shows "\<forall>u. Val u \<in> set p \<longrightarrow> u \<in> set S \<or> u \<in> set dt' \<or> u \<in> set dv'"
proof -
  have "roots_found S p [] dv' dt'"
    by (rule discover_from_invariant[OF assms(1), where I = "roots_found S p"])
       (auto simp: discover_preserves_def roots_found_def)
  then show ?thesis by (simp add: roots_found_def)
qed

text \<open>
  The Values discovery records (as internal or as tributary): those reached from a root
  outside the sources along inputs outside the sources.
\<close>

inductive visits :: "'c heap \<Rightarrow> vid list \<Rightarrow> vid set \<Rightarrow> vid \<Rightarrow> bool"
  for h :: "'c heap" and S :: "vid list" and R :: "vid set" where
  visits_root: "r \<in> R \<Longrightarrow> r \<notin> set S \<Longrightarrow> visits h S R r"
| visits_input: "visits h S R v \<Longrightarrow> owner_of h v = Some op \<Longrightarrow> Val u \<in> set (inputs op) \<Longrightarrow>
     u \<notin> set S \<Longrightarrow> visits h S R u"

lemma discover_from_visits:
  assumes "discover_values_from h S p (dv, dt) = (dv', dt')"
    and "\<forall>v\<in>set dv \<union> set dt. visits h S R v"
    and "\<forall>u. Val u \<in> set p \<longrightarrow> u \<notin> set S \<longrightarrow> visits h S R u"
  shows "\<forall>v\<in>set dv' \<union> set dt'. visits h S R v"
proof -
  let ?I = "\<lambda>q dv1 dt1. (\<forall>v\<in>set dv1 \<union> set dt1. visits h S R v) \<and>
     (\<forall>u. Val u \<in> set q \<longrightarrow> u \<notin> set S \<longrightarrow> visits h S R u)"
  have "discover_preserves h S ?I"
    unfolding discover_preserves_def
    by (intro conjI allI impI; (auto intro: visits_input)[1])
  from discover_from_invariant[OF assms(1), where I = ?I, OF _ this] assms(2,3)
  show ?thesis by simp
qed

lemma discover_values_props:
  assumes "discover_values h S T = (dv, dt)"
  shows "distinct dv" "distinct dt"
    and "\<forall>v\<in>set dv. v \<notin> set S \<and> owner_of h v \<noteq> None"
    and "\<forall>v\<in>set dt. v \<notin> set S \<and> owner_of h v = None"
    and "closed_upto h S [] dv dt"
    and "\<forall>r\<in>set T. r \<in> set S \<or> r \<in> set dt \<or> r \<in> set dv"
    and "\<forall>v\<in>set dv \<union> set dt. visits h S (set T) v"
proof -
  note e = assms[unfolded discover_values_def]
  from discover_from_distinct[OF e] show "distinct dv" "distinct dt" by simp_all
  from discover_from_kinds[OF e] show "\<forall>v\<in>set dv. v \<notin> set S \<and> owner_of h v \<noteq> None"
    "\<forall>v\<in>set dt. v \<notin> set S \<and> owner_of h v = None" by simp_all
  from discover_from_closed[OF e] show "closed_upto h S [] dv dt" by (simp add: closed_upto_def)
  from discover_from_roots[OF e] show "\<forall>r\<in>set T. r \<in> set S \<or> r \<in> set dt \<or> r \<in> set dv" by auto
  have "\<forall>u. Val u \<in> set (map Val T) \<longrightarrow> u \<notin> set S \<longrightarrow> visits h S (set T) u"
    by (auto intro: visits_root)
  from discover_from_visits[OF e _ this] show "\<forall>v\<in>set dv \<union> set dt. visits h S (set T) v" by simp
qed

lemma visits_discovered:
  assumes "discover_values h S T = (dv, dt)" and "visits h S (set T) v"
  shows "v \<in> set dv \<union> set dt"
  using assms(2)
proof (induction rule: visits.induct)
  case (visits_root r)
  with discover_values_props(6)[OF assms(1)] show ?case by auto
next
  case (visits_input v op u)
  from visits_input(2,5) discover_values_props(4)[OF assms(1)] have "v \<in> set dv" by auto
  with discover_values_props(5)[OF assms(1)] visits_input(2,3,4) show ?case
    by (auto simp: closed_upto_def)
qed

lemma walk_discovered:
  assumes "discover_values h S T = (dv, dt)" and "walk h S T v"
  shows "v \<in> set S \<or> v \<in> set dt \<or> v \<in> set dv"
  using assms(2)
proof (induction rule: walk.induct)
  case (walk_sink r)
  with discover_values_props(6)[OF assms(1)] show ?case by auto
next
  case (walk_input v op u)
  from walk_input(2,3,5) discover_values_props(4)[OF assms(1)] have "v \<in> set dv" by auto
  with discover_values_props(5)[OF assms(1)] walk_input(3,4) show ?case
    by (auto simp: closed_upto_def)
qed

subsection \<open>Topological sort\<close>

text \<open>
  \<open>sort_values\<close>. \<open>is_computable\<close> is its nested function. One pass of the \<open>for\<close> loop is
  \<open>sort_pass\<close>: Python's list iterator keeps an index into \<open>unsorted_values\<close>, and the body
  removes the current Value from that very list, so after a removal the index, stepping on,
  skips the Value that moved into the freed place. \<open>v.owner.inputs\<close> on a Value without
  owner raises \<open>AttributeError\<close>. The \<open>while\<close> loop is \<open>sort_values\<close>; a pass that removes
  nothing fails the assertion. Both lists are mutated in place: the model returns them.
\<close>

fun is_computable :: "'c heap \<Rightarrow> vid list \<Rightarrow> 'c arg \<Rightarrow> bool" where
  "is_computable h sorted_values (Raw c) = True"
| "is_computable h sorted_values (Val v) = (v \<in> set sorted_values \<or> owner_of h v = None)"

function sort_pass ::
  "'c heap \<Rightarrow> nat \<Rightarrow> vid list \<Rightarrow> vid list \<Rightarrow> bool \<Rightarrow> error + (vid list \<times> vid list \<times> bool)" where
  "sort_pass h i sorted_values unsorted_values removed_any =
     (if i < length unsorted_values then
        let v = unsorted_values ! i in
        (case owner_of h v of
           None \<Rightarrow> Inl AttributeError
         | Some op \<Rightarrow>
             if list_all (is_computable h sorted_values) (inputs op)
             then sort_pass h (i + 1) (sorted_values @ [v]) (remove1 v unsorted_values) True
             else sort_pass h (i + 1) sorted_values unsorted_values removed_any)
      else Inr (sorted_values, unsorted_values, removed_any))"
  by pat_completeness auto
termination
proof (relation "measure (\<lambda>(h, i, s, u, r). length u - i)", goal_cases)
  case (2 h i s u r v op)
  then have "length (remove1 (u ! i) u) = length u - 1"
    by (simp add: length_remove1)
  with 2 show ?case by simp
qed auto

lemma sort_pass_result:
  "sort_pass h i s u r = Inr (s', u', r') \<Longrightarrow> distinct u \<Longrightarrow>
     (\<exists>xs. s' = s @ xs \<and> distinct xs \<and> set xs \<subseteq> set u \<and> set u' = set u - set xs \<and>
           distinct u' \<and> r' = (r \<or> xs \<noteq> []) \<and> length u' + length xs = length u)"
proof (induction h i s u r rule: sort_pass.induct)
  case (1 h i s u r)
  show ?case
  proof (cases "i < length u")
    case False
    with 1(3,4) show ?thesis by simp
  next
    case True
    let ?v = "u ! i"
    from True have vin: "?v \<in> set u" by simp
    from 1(3) True obtain op where op: "owner_of h ?v = Some op"
      by (cases "owner_of h ?v") (auto simp: Let_def)
    show ?thesis
    proof (cases "list_all (is_computable h s) (inputs op)")
      case c: True
      from 1(3) True op c have e: "sort_pass h (i + 1) (s @ [?v]) (remove1 ?v u) True = Inr (s', u', r')"
        by (simp add: Let_def)
      from 1(4) have d: "distinct (remove1 ?v u)" by simp
      from 1(1)[OF True refl op c e d] obtain xs where
        xs: "s' = (s @ [?v]) @ xs" "distinct xs" "set xs \<subseteq> set (remove1 ?v u)"
          "set u' = set (remove1 ?v u) - set xs" "distinct u'" "r' = (True \<or> xs \<noteq> [])"
          "length u' + length xs = length (remove1 ?v u)" by blast
      have "s' = s @ (?v # xs)" using xs(1) by simp
      moreover have "distinct (?v # xs)" using xs(2,3) 1(4) by auto
      moreover have "set (?v # xs) \<subseteq> set u" using xs(3) vin 1(4) by auto
      moreover have "set u' = set u - set (?v # xs)" using xs(4) 1(4) by auto
      moreover have "length u' + length (?v # xs) = length u"
        using xs(7) vin True by (simp add: length_remove1)
      ultimately show ?thesis using xs(5,6) by blast
    next
      case c: False
      from 1(3) True op c have e: "sort_pass h (i + 1) s u r = Inr (s', u', r')"
        by (simp add: Let_def)
      from 1(2)[OF True refl op c e 1(4)] show ?thesis .
    qed
  qed
qed

lemma sort_pass_length:
  "sort_pass h i s u r = Inr (s', u', r') \<Longrightarrow>
     length u' \<le> length u \<and> (r' \<and> \<not> r \<longrightarrow> length u' < length u)"
proof (induction h i s u r rule: sort_pass.induct)
  case (1 h i s u r)
  show ?case
  proof (cases "i < length u")
    case False
    with 1(3) show ?thesis by simp
  next
    case True
    let ?v = "u ! i"
    from True have vin: "?v \<in> set u" by simp
    from 1(3) True obtain op where op: "owner_of h ?v = Some op"
      by (cases "owner_of h ?v") (auto simp: Let_def)
    show ?thesis
    proof (cases "list_all (is_computable h s) (inputs op)")
      case c: True
      from 1(3) True op c have e: "sort_pass h (i + 1) (s @ [?v]) (remove1 ?v u) True = Inr (s', u', r')"
        by (simp add: Let_def)
      from 1(1)[OF True refl op c e] vin True show ?thesis by (auto simp: length_remove1)
    next
      case c: False
      from 1(3) True op c have e: "sort_pass h (i + 1) s u r = Inr (s', u', r')"
        by (simp add: Let_def)
      from 1(2)[OF True refl op c e] show ?thesis .
    qed
  qed
qed

function sort_values ::
  "'c heap \<Rightarrow> vid list \<Rightarrow> vid list \<Rightarrow> error + (vid list \<times> vid list)" where
  "sort_values h sorted_values unsorted_values =
     (if unsorted_values \<noteq> [] then
        (case sort_pass h 0 sorted_values unsorted_values False of
           Inl e \<Rightarrow> Inl e
         | Inr (sorted_values', unsorted_values', removed_any) \<Rightarrow>
             if removed_any then sort_values h sorted_values' unsorted_values'
             else Inl AssertionError)
      else Inr (sorted_values, unsorted_values))"
  by pat_completeness auto
termination
proof (relation "measure (\<lambda>(h, s, u). length u)", goal_cases)
  case (2 h s u x2 s' y u' r')
  with sort_pass_length[of h 0 s u False s' u' r'] show ?case by simp
qed simp

text \<open>
  From position \<open>n\<close> on, every Value of the list has an owner whose inputs are all computable
  from the Values before it.
\<close>

definition topo_from :: "'c heap \<Rightarrow> nat \<Rightarrow> vid list \<Rightarrow> bool" where
  "topo_from h n s =
     (\<forall>i. n \<le> i \<and> i < length s \<longrightarrow>
        (\<exists>op. owner_of h (s ! i) = Some op \<and>
              list_all (is_computable h (take i s)) (inputs op)))"

lemma topo_from_snoc:
  assumes "topo_from h n s" "owner_of h v = Some op" "list_all (is_computable h s) (inputs op)"
  shows "topo_from h n (s @ [v])"
  unfolding topo_from_def
proof (intro allI impI)
  fix i assume i: "n \<le> i \<and> i < length (s @ [v])"
  show "\<exists>op. owner_of h ((s @ [v]) ! i) = Some op \<and>
              list_all (is_computable h (take i (s @ [v]))) (inputs op)"
  proof (cases "i < length s")
    case True
    with assms(1) i show ?thesis by (auto simp: topo_from_def nth_append)
  next
    case False
    with i have "i = length s" by simp
    with assms(2,3) show ?thesis by simp
  qed
qed

lemma sort_pass_topo:
  "sort_pass h i s u r = Inr (s', u', r') \<Longrightarrow> topo_from h n s \<Longrightarrow> topo_from h n s'"
proof (induction h i s u r rule: sort_pass.induct)
  case (1 h i s u r)
  show ?case
  proof (cases "i < length u")
    case False
    with 1(3,4) show ?thesis by simp
  next
    case True
    let ?v = "u ! i"
    from 1(3) True obtain op where op: "owner_of h ?v = Some op"
      by (cases "owner_of h ?v") (auto simp: Let_def)
    show ?thesis
    proof (cases "list_all (is_computable h s) (inputs op)")
      case c: True
      from 1(3) True op c have e: "sort_pass h (i + 1) (s @ [?v]) (remove1 ?v u) True = Inr (s', u', r')"
        by (simp add: Let_def)
      from 1(1)[OF True refl op c e topo_from_snoc[OF 1(4) op c]] show ?thesis .
    next
      case c: False
      from 1(3) True op c have e: "sort_pass h (i + 1) s u r = Inr (s', u', r')"
        by (simp add: Let_def)
      from 1(2)[OF True refl op c e 1(4)] show ?thesis .
    qed
  qed
qed

lemma sort_values_result:
  "sort_values h s u = Inr (s', u') \<Longrightarrow> distinct u \<Longrightarrow> topo_from h n s \<Longrightarrow>
     u' = [] \<and> (\<exists>xs. s' = s @ xs \<and> distinct xs \<and> set xs = set u) \<and> topo_from h n s'"
proof (induction h s u rule: sort_values.induct)
  case (1 h s u)
  show ?case
  proof (cases "u = []")
    case True
    with 1(2,4) show ?thesis by simp
  next
    case False
    from 1(2) False obtain s1 u1 where
      p: "sort_pass h 0 s u False = Inr (s1, u1, True)" and
      e: "sort_values h s1 u1 = Inr (s', u')"
      by (cases "sort_pass h 0 s u False") (auto split: if_splits)
    from sort_pass_result[OF p 1(3)] obtain xs where
      xs: "s1 = s @ xs" "distinct xs" "set xs \<subseteq> set u" "set u1 = set u - set xs" "distinct u1"
      by blast
    from 1(1)[OF False p refl refl _ e xs(5) sort_pass_topo[OF p 1(4)]] obtain ys where
      ys: "u' = []" "s' = s1 @ ys" "distinct ys" "set ys = set u1" "topo_from h n s'"
      by auto
    have "s' = s @ (xs @ ys)" using xs(1) ys(2) by simp
    moreover have "distinct (xs @ ys)" using xs(2,4) ys(3,4) by auto
    moreover have "set (xs @ ys) = set u" using xs(3,4) ys(4) by auto
    ultimately show ?thesis using ys(1,5) by blast
  qed
qed

subsection \<open>Atomic stages\<close>

text \<open>\<open>AtomicStage.__init__\<close>: the four lists a stage stores.\<close>

record AtomicStage =
  source_values :: "vid list"
  triburary_values :: "vid list"
  sorted_values :: "vid list"
  sink_values :: "vid list"

definition AtomicStage_init :: "'c heap \<Rightarrow> vid list \<Rightarrow> vid list \<Rightarrow> error + AtomicStage" where
  "AtomicStage_init h sources sinks =
     (case discover_values h sources sinks of
        (unsorted, triburaries) \<Rightarrow>
          (case sort_values h sources unsorted of
             Inl e \<Rightarrow> Inl e
           | Inr (sorted_all, unsorted') \<Rightarrow>
               if unsorted' = []
               then Inr \<lparr>source_values = take (length sources) sorted_all,
                         triburary_values = triburaries,
                         sorted_values = drop (length sources) sorted_all,
                         sink_values = sinks\<rparr>
               else Inl AssertionError))"

lemma AtomicStage_init_fields:
  assumes "AtomicStage_init h S T = Inr st"
  shows "source_values st = S" "sink_values st = T"
    and "discover_values h S T = (dv, dt) \<Longrightarrow>
           triburary_values st = dt \<and> distinct (sorted_values st) \<and> set (sorted_values st) = set dv"
    and "topo_from h (length S) (S @ sorted_values st)"
proof -
  obtain dv0 dt0 where d: "discover_values h S T = (dv0, dt0)"
    by (cases "discover_values h S T") auto
  from assms d obtain s' u' where sv: "sort_values h S dv0 = Inr (s', u')"
    and st: "st = \<lparr>source_values = take (length S) s', triburary_values = dt0,
                   sorted_values = drop (length S) s', sink_values = T\<rparr>"
    by (cases "sort_values h S dv0") (auto simp: AtomicStage_init_def split: if_splits)
  have t0: "topo_from h (length S) S" by (auto simp: topo_from_def)
  from sort_values_result[OF sv discover_values_props(1)[OF d] t0] obtain xs where
    xs: "s' = S @ xs" "distinct xs" "set xs = set dv0" "topo_from h (length S) s'" by blast
  show "source_values st = S" "sink_values st = T" using st xs(1) by simp_all
  show "discover_values h S T = (dv, dt) \<Longrightarrow>
           triburary_values st = dt \<and> distinct (sorted_values st) \<and> set (sorted_values st) = set dv"
    using st xs d by simp
  show "topo_from h (length S) (S @ sorted_values st)" using st xs by simp
qed

text \<open>
  An example: \<open>a\<close> (address 0) and \<open>t\<close> (1) have no owner, \<open>b = a + t\<close> (2) and
  \<open>c = b * 10\<close> (3) are stencil operations, \<open>d = c + b + a\<close> (4) is not.
\<close>

definition example_heap :: "int heap" where
  "example_heap =
     [\<lparr>shape = [4, 4], owner = None, tmp = None, value_id = None,
        create_stage = None, discard_stage = None\<rparr>,
      \<lparr>shape = [], owner = None, tmp = None, value_id = None,
        create_stage = None, discard_stage = None\<rparr>,
      \<lparr>shape = [4, 4],
        owner = Some \<lparr>inputs = [Val 0, Val 1], access_neighbor = True, perform = sum_list\<rparr>,
        tmp = None, value_id = None, create_stage = None, discard_stage = None\<rparr>,
      \<lparr>shape = [4, 4],
        owner = Some \<lparr>inputs = [Val 2, Raw 10], access_neighbor = True, perform = prod_list\<rparr>,
        tmp = None, value_id = None, create_stage = None, discard_stage = None\<rparr>,
      \<lparr>shape = [4, 4],
        owner = Some \<lparr>inputs = [Val 3, Val 2, Val 0], access_neighbor = False, perform = sum_list\<rparr>,
        tmp = None, value_id = None, create_stage = None, discard_stage = None\<rparr>]"

lemma ex_init: "AtomicStage_init example_heap [0] [4] =
   Inr \<lparr>source_values = [0], triburary_values = [1], sorted_values = [2, 3, 4], sink_values = [4]\<rparr>"
  by code_simp

text \<open>
  Claim C4 (topological soundness and closure partition). For a stage constructed from
  \<open>(sources, sinks)\<close>: every Value in the closure of the stage (reached by the walk from the
  sinks, whose boundary the formal sources are) is a formal source, a tributary or an
  internal Value, the three kinds being disjoint; and every internal Value has an owner all
  of whose Value inputs are formal sources, tributaries or internal Values standing before
  it in the sorted list.
\<close>

theorem AtomicStage_topological_soundness:
  assumes "AtomicStage_init h sources sinks = Inr st"
  shows "(\<forall>v. walk h sources sinks v \<longrightarrow>
            v \<in> set (source_values st) \<or> v \<in> set (triburary_values st) \<or>
            v \<in> set (sorted_values st))
       \<and> set (triburary_values st) \<inter> set (source_values st) = {}
       \<and> set (sorted_values st) \<inter> set (source_values st) = {}
       \<and> set (sorted_values st) \<inter> set (triburary_values st) = {}
       \<and> (\<forall>i<length (sorted_values st).
            \<exists>op. owner_of h (sorted_values st ! i) = Some op \<and>
              (\<forall>u. Val u \<in> set (inputs op) \<longrightarrow>
                 u \<in> set (source_values st) \<or> u \<in> set (triburary_values st) \<or>
                 u \<in> set (take i (sorted_values st))))"
proof -
  obtain dv dt where d: "discover_values h sources sinks = (dv, dt)"
    by (cases "discover_values h sources sinks") auto
  note f = AtomicStage_init_fields[OF assms]
  from f(3)[OF d] have tr: "triburary_values st = dt" and ds: "distinct (sorted_values st)"
    and ss: "set (sorted_values st) = set dv" by simp_all
  note p = discover_values_props[OF d]
  have 1: "\<forall>v. walk h sources sinks v \<longrightarrow>
            v \<in> set (source_values st) \<or> v \<in> set (triburary_values st) \<or>
            v \<in> set (sorted_values st)"
    using walk_discovered[OF d] f(1) tr ss by simp
  have 2: "set (triburary_values st) \<inter> set (source_values st) = {}"
    "set (sorted_values st) \<inter> set (source_values st) = {}"
    "set (sorted_values st) \<inter> set (triburary_values st) = {}"
    using p(3,4) f(1) tr ss by auto
  have 3: "\<exists>op. owner_of h (sorted_values st ! i) = Some op \<and>
              (\<forall>u. Val u \<in> set (inputs op) \<longrightarrow>
                 u \<in> set (source_values st) \<or> u \<in> set (triburary_values st) \<or>
                 u \<in> set (take i (sorted_values st)))"
    if i: "i < length (sorted_values st)" for i
  proof -
    let ?xs = "sorted_values st"
    let ?n = "length sources"
    from f(4) i obtain op where
      op: "owner_of h ((sources @ ?xs) ! (?n + i)) = Some op"
        "list_all (is_computable h (take (?n + i) (sources @ ?xs))) (inputs op)"
      unfolding topo_from_def by (metis add_less_cancel_left le_add1 length_append)
    then have op1: "owner_of h (?xs ! i) = Some op" by simp
    from i have vin: "?xs ! i \<in> set dv" using ss by (metis nth_mem)
    have "u \<in> set (source_values st) \<or> u \<in> set (triburary_values st) \<or> u \<in> set (take i ?xs)"
      if u: "Val u \<in> set (inputs op)" for u
    proof -
      from op(2) u have "is_computable h (take (?n + i) (sources @ ?xs)) (Val u)"
        unfolding list_all_iff by blast
      then consider "u \<in> set sources \<or> u \<in> set (take i ?xs)" | "owner_of h u = None"
        by auto
      then show ?thesis
      proof cases
        case 1
        then show ?thesis using f(1) by auto
      next
        case 2
        from p(5) vin op1 u have "u \<in> set sources \<or> u \<in> set dt \<or> u \<in> set dv"
          by (auto simp: closed_upto_def)
        with 2 p(3) show ?thesis using f(1) tr by auto
      qed
    qed
    with op1 show ?thesis by blast
  qed
  from 1 2 3 show ?thesis by blast
qed

lemma example_walk_1: "walk example_heap [0] [4] 1"
proof -
  have o4: "owner_of example_heap 4 = Some \<lparr>inputs = [Val 3, Val 2, Val 0], access_neighbor = False, perform = sum_list\<rparr>"
    and o2: "owner_of example_heap 2 = Some \<lparr>inputs = [Val 0, Val 1], access_neighbor = True, perform = sum_list\<rparr>"
    by (simp_all add: owner_of_def example_heap_def)
  have "walk example_heap [0] [4] 4" by (rule walk_sink) simp
  then have "walk example_heap [0] [4] 2" by (rule walk_input[OF _ _ o4]) simp_all
  then show ?thesis by (rule walk_input[OF _ _ o2]) simp_all
qed

theorem AtomicStage_topological_soundness_witness:
  "AtomicStage_init example_heap [0] [4] =
     Inr \<lparr>source_values = [0], triburary_values = [1], sorted_values = [2, 3, 4], sink_values = [4]\<rparr>
   \<and> walk example_heap [0] [4] 1
   \<and> (1 \<in> set [0::nat] \<or> 1 \<in> set [1::nat] \<or> 1 \<in> set [2::nat, 3, 4])
   \<and> (\<exists>op. owner_of example_heap ([2, 3, 4] ! 1) = Some op \<and> inputs op = [Val 2, Raw 10]
          \<and> (2 \<in> set [0::nat] \<or> 2 \<in> set [1::nat] \<or> 2 \<in> set (take 1 [2::nat, 3, 4])))"
proof -
  have e: "AtomicStage_init example_heap [0] [4] =
     Inr \<lparr>source_values = [0], triburary_values = [1], sorted_values = [2, 3, 4], sink_values = [4]\<rparr>"
    by code_simp
  have o: "owner_of example_heap 3 = Some \<lparr>inputs = [Val 2, Raw 10], access_neighbor = True, perform = prod_list\<rparr>"
    by (simp add: owner_of_def example_heap_def)
  from AtomicStage_topological_soundness[OF e] example_walk_1 e o show ?thesis
    by simp
qed

end
